theory Spec2Isabelle
  imports Complex_Main "HOL-Library.Multiset"
begin

section \<open>The hysteresis oscillatory network of pyclustering\<close>

text \<open>
  A shallow embedding of \<^verbatim>\<open>pyclustering/nnet/hysteresis/__init__.py\<close>. The class
  \<^verbatim>\<open>hysteresis_network\<close> becomes a record, every method a function that takes the
  network and returns its result together with the network as the call leaves it, and
  every exception a value of \<open>error\<close>. A method that raises hands back the network as
  mutated up to the raise, as Python does.

  Numbers are exact reals: the model does the arithmetic of the source without the
  rounding of machine floats. In particular \<^verbatim>\<open>numpy.arange\<close> has here the length that
  its definition gives in exact arithmetic.
\<close>

subsection \<open>Python values\<close>

datatype error = IndexError | NameError string | ValueError | ZeroDivisionError | AttributeError

text \<open>The selectors of \<^verbatim>\<open>solve_type\<close> that the source names.\<close>

datatype solve_type = FAST | RK4 | RKF45

text \<open>\<^verbatim>\<open>xs[i]\<close> and \<^verbatim>\<open>xs[i] = v\<close> for an index that is never negative.\<close>

definition getitem :: "'a list \<Rightarrow> nat \<Rightarrow> error + 'a" where
  "getitem xs i = (if i < length xs then Inr (xs ! i) else Inl IndexError)"

definition setitem :: "'a list \<Rightarrow> nat \<Rightarrow> 'a \<Rightarrow> error + 'a list" where
  "setitem xs i v = (if i < length xs then Inr (xs[i := v]) else Inl IndexError)"

text \<open>
  \<^verbatim>\<open>numpy.arange(start, stop, step)\<close>: the values \<open>start + i * step\<close> for
  \<open>i\<close> from 0 up to, and excluding, \<open>ceil((stop - start) / step)\<close>; the interval is
  half open. A zero step is refused.
\<close>

definition arange :: "real \<Rightarrow> real \<Rightarrow> real \<Rightarrow> error + real list" where
  "arange start stop step =
     (if step = 0 then Inl ValueError
      else Inr (map (\<lambda>i. start + real i * step) [0..<nat \<lceil>(stop - start) / step\<rceil>]))"

subsection \<open>The network\<close>

text \<open>
  The fields of the class. \<open>num_osc\<close> and \<open>has_connection\<close> belong to the base class
  \<^verbatim>\<open>network\<close>, which is not part of these sources: the oscillator count is what the
  constructor was given, and the topology query is a parameter of the model.
\<close>

record hysteresis_network =
  num_osc :: nat
  has_connection :: "nat \<Rightarrow> nat \<Rightarrow> bool"
  states :: "real list"
  outputs_buffer :: "real list"
  outputs :: "real list"
  weight :: "real list list"

text \<open>The two property setters.\<close>

definition set_outputs :: "real list \<Rightarrow> hysteresis_network \<Rightarrow> hysteresis_network" where
  "set_outputs vals net = net\<lparr>outputs := vals, outputs_buffer := vals\<rparr>"

definition set_states :: "real list \<Rightarrow> hysteresis_network \<Rightarrow> hysteresis_network" where
  "set_states vals net = net\<lparr>states := vals\<rparr>"

text \<open>
  The constructor. The constructor of the base class is taken to store the oscillator
  count it is given and to build the topology, which arrives here as the query \<open>conn\<close>.
  The loop appends one row of \<open>neigh_weight\<close> per oscillator and then overwrites the
  diagonal entry of the row just appended.
\<close>

fun weight_loop :: "nat \<Rightarrow> real \<Rightarrow> real \<Rightarrow> nat list \<Rightarrow> real list list \<Rightarrow> error + real list list" where
  "weight_loop n own_weight neigh_weight [] w = Inr w"
| "weight_loop n own_weight neigh_weight (index # rest) w =
     (let w1 = w @ [replicate n neigh_weight] in
      case getitem w1 index of Inl e \<Rightarrow> Inl e | Inr row \<Rightarrow>
     (case setitem row index own_weight of Inl e \<Rightarrow> Inl e | Inr row' \<Rightarrow>
        weight_loop n own_weight neigh_weight rest (w1[index := row'])))"

definition hysteresis_network_init ::
  "nat \<Rightarrow> real \<Rightarrow> real \<Rightarrow> (nat \<Rightarrow> nat \<Rightarrow> bool) \<Rightarrow> error + hysteresis_network" where
  "hysteresis_network_init n own_weight neigh_weight conn =
     (case weight_loop n own_weight neigh_weight [0..<n] [] of
        Inl e \<Rightarrow> Inl e
      | Inr w \<Rightarrow> Inr \<lparr>num_osc = n, has_connection = conn,
                     states = replicate n 0,
                     outputs_buffer = replicate n (- 1),
                     outputs = replicate n (- 1),
                     weight = w\<rparr>)"

subsection \<open>The derivative function\<close>

text \<open>The loop of \<^verbatim>\<open>neuron_states\<close> that adds the impact of the connected oscillators.\<close>

fun impact_loop :: "hysteresis_network \<Rightarrow> nat \<Rightarrow> nat list \<Rightarrow> real \<Rightarrow> error + real" where
  "impact_loop net index [] impact = Inr impact"
| "impact_loop net index (i # rest) impact =
     (if has_connection net i index then
        (case getitem (weight net) index of Inl e \<Rightarrow> Inl e | Inr row \<Rightarrow>
        (case getitem row i of Inl e \<Rightarrow> Inl e | Inr w \<Rightarrow>
        (case getitem (outputs net) i of Inl e \<Rightarrow> Inl e | Inr out \<Rightarrow>
           impact_loop net index rest (impact + w * out))))
      else impact_loop net index rest impact)"

definition neuron_states ::
  "hysteresis_network \<Rightarrow> real list \<Rightarrow> real \<Rightarrow> nat \<Rightarrow> (error + real) \<times> hysteresis_network" where
  "neuron_states net inputs t argv =
     (case getitem inputs 0 of Inl e \<Rightarrow> (Inl e, net) | Inr xi \<Rightarrow>
     (let index = argv in
     (case getitem (weight net) index of Inl e \<Rightarrow> (Inl e, net) | Inr row \<Rightarrow>
     (case getitem row index of Inl e \<Rightarrow> (Inl e, net) | Inr w \<Rightarrow>
     (case getitem (outputs net) index of Inl e \<Rightarrow> (Inl e, net) | Inr out \<Rightarrow>
     (case impact_loop net index [0..<num_osc net] (w * out) of Inl e \<Rightarrow> (Inl e, net) | Inr impact \<Rightarrow>
     (let x = - xi + impact in
     (case (if xi > 1 then setitem (outputs_buffer net) index 1 else Inr (outputs_buffer net)) of
        Inl e \<Rightarrow> (Inl e, net)
      | Inr b1 \<Rightarrow>
     (case (if xi < - 1 then setitem b1 index (- 1) else Inr b1) of
        Inl e \<Rightarrow> (Inl e, net\<lparr>outputs_buffer := b1\<rparr>)
      | Inr b2 \<Rightarrow> (Inr x, net\<lparr>outputs_buffer := b2\<rparr>))))))))))"

subsection \<open>The scalar integrator\<close>

text \<open>
  \<^verbatim>\<open>scipy.integrate.odeint\<close> is not part of the sources. What the network sees of it
  is a conversation: the integrator asks for the derivative at a state value and a time,
  as often as it likes and at values of its choice, and in the end returns a trajectory.
  An \<open>integration\<close> is such a conversation, and an integrator maps the initial value and
  the time points to one. \<open>odeint_call\<close> answers every question with
  \<open>neuron_states\<close>, bound to the index of the oscillator, and threads the network
  through the answers, as the callback of the source mutates it.
\<close>

datatype integration = Trajectory "real list" | Derivative real real "real \<Rightarrow> integration"

type_synonym integrator = "real \<Rightarrow> real list \<Rightarrow> integration"

primrec odeint_call ::
  "integration \<Rightarrow> nat \<Rightarrow> hysteresis_network \<Rightarrow> (error + real list) \<times> hysteresis_network" where
  "odeint_call (Trajectory r) = (\<lambda>index net. (Inr r, net))"
| "odeint_call (Derivative y t k) = (\<lambda>index net.
     case neuron_states net [y] t index of
       (Inl e, net1) \<Rightarrow> (Inl e, net1)
     | (Inr x, net1) \<Rightarrow> odeint_call (k x) index net1)"

text \<open>The state values that the integrator passes to the derivative function in a call.\<close>

primrec odeint_evals :: "integration \<Rightarrow> nat \<Rightarrow> hysteresis_network \<Rightarrow> real list" where
  "odeint_evals (Trajectory r) = (\<lambda>index net. [])"
| "odeint_evals (Derivative y t k) = (\<lambda>index net.
     y # (case neuron_states net [y] t index of
            (Inl e, net1) \<Rightarrow> []
          | (Inr x, net1) \<Rightarrow> odeint_evals (k x) index net1))"



subsection \<open>One macro step\<close>

text \<open>
  The loop of \<^verbatim>\<open>_calculate_states\<close> over the oscillators. The source runs it over
  \<^verbatim>\<open>range(0, num_osc)\<close>; here the sequence of indices is an argument, so that the
  same body can be run in another order.
\<close>

fun states_loop ::
  "integrator \<Rightarrow> real \<Rightarrow> real \<Rightarrow> real \<Rightarrow> nat list \<Rightarrow> real list \<Rightarrow> hysteresis_network
   \<Rightarrow> (error + real list) \<times> hysteresis_network" where
  "states_loop odeint t step int_step [] next_states net = (Inr next_states, net)"
| "states_loop odeint t step int_step (index # rest) next_states net =
     (case getitem (states net) index of Inl e \<Rightarrow> (Inl e, net) | Inr y0 \<Rightarrow>
     (case arange (t - step) t int_step of Inl e \<Rightarrow> (Inl e, net) | Inr ts \<Rightarrow>
     (case odeint_call (odeint y0 ts) index net of
        (Inl e, net1) \<Rightarrow> (Inl e, net1)
      | (Inr result, net1) \<Rightarrow>
     (case getitem result (length result - 1) of Inl e \<Rightarrow> (Inl e, net1) | Inr v \<Rightarrow>
     (case setitem next_states index v of Inl e \<Rightarrow> (Inl e, net1) | Inr next_states1 \<Rightarrow>
        states_loop odeint t step int_step rest next_states1 net1)))))"

definition calculate_states_in ::
  "nat list \<Rightarrow> integrator \<Rightarrow> hysteresis_network \<Rightarrow> solve_type \<Rightarrow> real \<Rightarrow> real \<Rightarrow> real
   \<Rightarrow> (error + real list) \<times> hysteresis_network" where
  "calculate_states_in order odeint net solution t step int_step =
     (case states_loop odeint t step int_step order (replicate (num_osc net) 0) net of
        (Inl e, net1) \<Rightarrow> (Inl e, net1)
      | (Inr next_states, net1) \<Rightarrow> (Inr next_states, net1\<lparr>outputs := outputs_buffer net1\<rparr>))"

definition calculate_states ::
  "integrator \<Rightarrow> hysteresis_network \<Rightarrow> solve_type \<Rightarrow> real \<Rightarrow> real \<Rightarrow> real
   \<Rightarrow> (error + real list) \<times> hysteresis_network" where
  "calculate_states odeint net solution t step int_step =
     calculate_states_in [0..<num_osc net] odeint net solution t step int_step"

subsection \<open>The simulation\<close>

text \<open>
  The pair \<^verbatim>\<open>(dyn_time, dyn_state)\<close>: both \<^verbatim>\<open>None\<close>, or the last time and state
  vector, or the lists of all times and all state vectors.
\<close>

datatype dynamic = NoDynamic | Final real "real list" | Collected "real list" "real list list"

fun simulate_loop ::
  "integrator \<Rightarrow> solve_type \<Rightarrow> real \<Rightarrow> real \<Rightarrow> bool \<Rightarrow> real list \<Rightarrow> dynamic \<Rightarrow> hysteresis_network
   \<Rightarrow> (error + dynamic) \<times> hysteresis_network" where
  "simulate_loop odeint solution step int_step collect_dynamic [] dyn net = (Inr dyn, net)"
| "simulate_loop odeint solution step int_step collect_dynamic (t # rest) dyn net =
     (case calculate_states odeint net solution t step int_step of
        (Inl e, net1) \<Rightarrow> (Inl e, net1)
      | (Inr next_states, net1) \<Rightarrow>
          let net2 = net1\<lparr>states := next_states\<rparr> in
          if collect_dynamic then
            (case dyn of
               Collected dyn_time dyn_state \<Rightarrow>
                 simulate_loop odeint solution step int_step collect_dynamic rest
                   (Collected (dyn_time @ [t]) (dyn_state @ [states net2])) net2
             | _ \<Rightarrow> (Inl AttributeError, net2))
          else
            simulate_loop odeint solution step int_step collect_dynamic rest
              (Final t (states net2)) net2)"

definition simulate_static ::
  "integrator \<Rightarrow> hysteresis_network \<Rightarrow> int \<Rightarrow> real \<Rightarrow> solve_type \<Rightarrow> bool
   \<Rightarrow> (error + dynamic) \<times> hysteresis_network" where
  "simulate_static odeint net steps time solution collect_dynamic =
     (if solution = FAST then
        (Inl (NameError ''Solver FAST is not support due to low accuracy that leads to huge error.''), net)
      else if solution = RKF45 then
        (Inl (NameError ''Solver RKF45 is not support in python version.''), net)
      else
        let dyn = (if collect_dynamic then Collected [0] [states net] else NoDynamic) in
        if steps = 0 then (Inl ZeroDivisionError, net)
        else
          let step = time / real_of_int steps; int_step = step / 10 in
          case arange step (time + step) step of
            Inl e \<Rightarrow> (Inl e, net)
          | Inr ts \<Rightarrow> simulate_loop odeint solution step int_step collect_dynamic ts dyn net)"

definition simulate ::
  "integrator \<Rightarrow> hysteresis_network \<Rightarrow> int \<Rightarrow> real \<Rightarrow> solve_type \<Rightarrow> bool
   \<Rightarrow> (error + dynamic) \<times> hysteresis_network" where
  "simulate odeint net steps time solution collect_dynamic =
     simulate_static odeint net steps time solution collect_dynamic"

text \<open>The simulation without a horizon is refused whatever its arguments are.\<close>

definition simulate_dynamic ::
  "hysteresis_network \<Rightarrow> real \<Rightarrow> solve_type \<Rightarrow> bool \<Rightarrow> real \<Rightarrow> real \<Rightarrow> real
   \<Rightarrow> (error + dynamic) \<times> hysteresis_network" where
  "simulate_dynamic net order solution collect_dynamic step int_step threshold_changes =
     (Inl (NameError ''Dynamic simulation is not supported due to lack of stop conditions for the model''), net)"

subsection \<open>Allocation of the synchronous ensembles\<close>

text \<open>
  The inner loop over the members of one cluster: whether some member is within the
  tolerance of oscillator \<open>i\<close>. The loop over the clusters appends \<open>i\<close> to the first
  cluster for which this holds and stops.
\<close>

fun scan_cluster :: "real list \<Rightarrow> real \<Rightarrow> nat \<Rightarrow> nat list \<Rightarrow> error + bool" where
  "scan_cluster sts tolerance i [] = Inr False"
| "scan_cluster sts tolerance i (neuron_index # rest) =
     (case getitem sts i of Inl e \<Rightarrow> Inl e | Inr si \<Rightarrow>
     (case getitem sts neuron_index of Inl e \<Rightarrow> Inl e | Inr sn \<Rightarrow>
        if si < sn + tolerance \<and> si > sn - tolerance then Inr True
        else scan_cluster sts tolerance i rest))"

fun scan_clusters :: "real list \<Rightarrow> real \<Rightarrow> nat \<Rightarrow> nat list list \<Rightarrow> error + (nat list list \<times> bool)" where
  "scan_clusters sts tolerance i [] = Inr ([], False)"
| "scan_clusters sts tolerance i (cluster # rest) =
     (case scan_cluster sts tolerance i cluster of
        Inl e \<Rightarrow> Inl e
      | Inr cluster_allocated \<Rightarrow>
          if cluster_allocated then Inr ((cluster @ [i]) # rest, True)
          else (case scan_clusters sts tolerance i rest of
                  Inl e \<Rightarrow> Inl e
                | Inr (rest1, allocated) \<Rightarrow> Inr (cluster # rest1, allocated)))"

fun allocate_loop :: "real list \<Rightarrow> real \<Rightarrow> nat list \<Rightarrow> nat list list \<Rightarrow> error + nat list list" where
  "allocate_loop sts tolerance [] clusters = Inr clusters"
| "allocate_loop sts tolerance (i # rest) clusters =
     (case scan_clusters sts tolerance i clusters of
        Inl e \<Rightarrow> Inl e
      | Inr (clusters1, cluster_allocated) \<Rightarrow>
          allocate_loop sts tolerance rest
            (if cluster_allocated then clusters1 else clusters1 @ [[i]]))"

definition allocate_sync_ensembles :: "hysteresis_network \<Rightarrow> real \<Rightarrow> error + nat list list" where
  "allocate_sync_ensembles net tolerance =
     allocate_loop (states net) tolerance [1..<num_osc net] [[0]]"

text \<open>
  The grouping rule in the words of the specification: oscillator 0 starts the first
  group; every later index joins the first group, in creation order, with a member whose
  state is at a distance below the tolerance, and opens a new group when there is none.
\<close>

definition near :: "real list \<Rightarrow> real \<Rightarrow> nat \<Rightarrow> nat \<Rightarrow> bool" where
  "near sts tolerance i m = (\<bar>sts ! i - sts ! m\<bar> < tolerance)"

fun first_fit_place :: "real list \<Rightarrow> real \<Rightarrow> nat \<Rightarrow> nat list list \<Rightarrow> nat list list" where
  "first_fit_place sts tolerance i [] = [[i]]"
| "first_fit_place sts tolerance i (g # gs) =
     (if list_ex (near sts tolerance i) g then (g @ [i]) # gs
      else g # first_fit_place sts tolerance i gs)"

definition first_fit :: "real list \<Rightarrow> real \<Rightarrow> nat \<Rightarrow> nat list list" where
  "first_fit sts tolerance n = foldl (\<lambda>groups i. first_fit_place sts tolerance i groups) [[0]] [1..<n]"

text \<open>A network is well formed when every field has one entry per oscillator.\<close>

definition well_formed :: "hysteresis_network \<Rightarrow> bool" where
  "well_formed net =
     (length (states net) = num_osc net \<and> length (outputs net) = num_osc net \<and>
      length (outputs_buffer net) = num_osc net \<and> length (weight net) = num_osc net \<and>
      list_all (\<lambda>row. length row = num_osc net) (weight net))"

subsection \<open>Auxiliary notions for the proofs\<close>

text \<open>
  The latch of \<open>neuron_states\<close>; the value it returns, as a function of the fields it
  reads; and a call of the integrator followed on the one buffer slot that it can write.
\<close>

definition latch :: "real \<Rightarrow> real \<Rightarrow> real" where
  "latch xi b = (if 1 < xi then 1 else if xi < - 1 then - 1 else b)"

definition neuron_derivative :: "hysteresis_network \<Rightarrow> nat \<Rightarrow> real \<Rightarrow> error + real" where
  "neuron_derivative net index xi =
     (case getitem (weight net) index of Inl e \<Rightarrow> Inl e | Inr row \<Rightarrow>
     (case getitem row index of Inl e \<Rightarrow> Inl e | Inr w \<Rightarrow>
     (case getitem (outputs net) index of Inl e \<Rightarrow> Inl e | Inr out \<Rightarrow>
     (case impact_loop net index [0..<num_osc net] (w * out) of
        Inl e \<Rightarrow> Inl e
      | Inr impact \<Rightarrow> Inr (- xi + impact)))))"

primrec slot_run ::
  "integration \<Rightarrow> (real \<Rightarrow> error + real) \<Rightarrow> bool \<Rightarrow> real \<Rightarrow> (error + real list) \<times> real" where
  "slot_run (Trajectory r) = (\<lambda>f in_range v. (Inr r, v))"
| "slot_run (Derivative y t k) = (\<lambda>f in_range v.
     case f y of
       Inl e \<Rightarrow> (Inl e, v)
     | Inr x \<Rightarrow>
         if (1 < y \<or> y < - 1) \<and> \<not> in_range then (Inl IndexError, v)
         else slot_run (k x) f in_range (latch y v))"

text \<open>
  What the body of the loop of \<open>calculate_states_in\<close> does for oscillator \<open>i\<close> when it
  starts from \<open>net\<close>: the new state and the new value of the buffer slot. \<open>new_states\<close>
  and \<open>new_buffer\<close> are the vectors after the oscillators of a set have been integrated,
  and \<open>steps_ok\<close> says that none of them raises.
\<close>

definition osc_step ::
  "integrator \<Rightarrow> real \<Rightarrow> real \<Rightarrow> real \<Rightarrow> hysteresis_network \<Rightarrow> nat \<Rightarrow> error + (real \<times> real)" where
  "osc_step odeint t step int_step net i =
     (case getitem (states net) i of Inl e \<Rightarrow> Inl e | Inr y0 \<Rightarrow>
     (case arange (t - step) t int_step of Inl e \<Rightarrow> Inl e | Inr ts \<Rightarrow>
     (case slot_run (odeint y0 ts) (neuron_derivative net i) (i < length (outputs_buffer net))
             (outputs_buffer net ! i) of
        (Inl e, v) \<Rightarrow> Inl e
      | (Inr result, v) \<Rightarrow>
     (case getitem result (length result - 1) of Inl e \<Rightarrow> Inl e | Inr s \<Rightarrow> Inr (s, v)))))"

definition new_states ::
  "integrator \<Rightarrow> real \<Rightarrow> real \<Rightarrow> real \<Rightarrow> hysteresis_network \<Rightarrow> nat set \<Rightarrow> real list \<Rightarrow> real list" where
  "new_states odeint t step int_step net done ns =
     map (\<lambda>k. if k \<in> done
               then (case osc_step odeint t step int_step net k of Inl e \<Rightarrow> ns ! k | Inr (s, v) \<Rightarrow> s)
               else ns ! k) [0..<length ns]"

definition new_buffer ::
  "integrator \<Rightarrow> real \<Rightarrow> real \<Rightarrow> real \<Rightarrow> hysteresis_network \<Rightarrow> nat set \<Rightarrow> real list" where
  "new_buffer odeint t step int_step net done =
     map (\<lambda>k. if k \<in> done
               then (case osc_step odeint t step int_step net k of
                       Inl e \<Rightarrow> outputs_buffer net ! k | Inr (s, v) \<Rightarrow> v)
               else outputs_buffer net ! k) [0..<length (outputs_buffer net)]"

definition steps_ok ::
  "integrator \<Rightarrow> real \<Rightarrow> real \<Rightarrow> real \<Rightarrow> hysteresis_network \<Rightarrow> nat set \<Rightarrow> nat \<Rightarrow> bool" where
  "steps_ok odeint t step int_step net done m =
     (\<forall>i\<in>done. i < m \<and> (\<exists>sv. osc_step odeint t step int_step net i = Inr sv))"

text \<open>
A vector whose entries are all \<open>-1\<close> or \<open>1\<close>.
\<close>

definition bipolar :: "real list \<Rightarrow> bool" where
  "bipolar xs = (set xs \<subseteq> {- 1, 1})"

subsection \<open>Sample data\<close>

text \<open>
  Two integrators to run the model on. The first evaluates the derivative once, at the
  initial value, and returns the straight line of that slope through the time points.
  The second asks nothing and returns the time points it was given, which shows them.
\<close>

definition line_integrator :: integrator where
  "line_integrator y0 ts =
     Derivative y0 (case ts of [] \<Rightarrow> 0 | t0 # _ \<Rightarrow> t0)
       (\<lambda>d. Trajectory (map (\<lambda>t. y0 + (t - (case ts of [] \<Rightarrow> 0 | t0 # _ \<Rightarrow> t0)) * d) ts))"

definition probe_integrator :: integrator where
  "probe_integrator y0 ts = Trajectory ts"

text \<open>
  The topology in which every oscillator is connected to every other one, and networks
  as the unit tests build them: \<^verbatim>\<open>hysteresis_network(2, -4, -1)\<close> with states
  \<^verbatim>\<open>[1, 0]\<close> and outputs \<^verbatim>\<open>[1, 1]\<close>; the same network with states beyond both
  thresholds; a single oscillator as constructed; and five oscillators with given states.
\<close>

definition all_to_all :: "nat \<Rightarrow> nat \<Rightarrow> bool" where
  "all_to_all i j = (i \<noteq> j)"

definition example_network :: hysteresis_network where
  "example_network =
     \<lparr>num_osc = 2, has_connection = all_to_all,
      states = [1, 0], outputs_buffer = [1, 1], outputs = [1, 1],
      weight = [[- 4, - 1], [- 1, - 4]]\<rparr>"

definition flipping_network :: hysteresis_network where
  "flipping_network = set_states [2, - 3] (set_outputs [- 1, 1] example_network)"

definition single_network :: hysteresis_network where
  "single_network =
     \<lparr>num_osc = 1, has_connection = all_to_all,
      states = [0], outputs_buffer = [- 1], outputs = [- 1], weight = [[- 4]]\<rparr>"

definition five_oscillators :: "real list \<Rightarrow> hysteresis_network" where
  "five_oscillators sts =
     \<lparr>num_osc = 5, has_connection = all_to_all,
      states = sts, outputs_buffer = replicate 5 1, outputs = replicate 5 1,
      weight = map (\<lambda>i. map (\<lambda>j. if i = j then - 4 else - 1) [0..<5]) [0..<5]\<rparr>"

section \<open>Properties\<close>

subsection \<open>Construction\<close>

lemma diag_row: "i < n \<Longrightarrow> (replicate n b)[i := a] = map (\<lambda>j. if i = j then a else b) [0..<n]"
  by (rule nth_equalityI) (auto simp: nth_list_update)

lemma weight_loop_rows:
  "length w = k \<Longrightarrow> k \<le> n \<Longrightarrow>
   weight_loop n own neigh [k..<n] w = Inr (w @ map (\<lambda>i. (replicate n neigh)[i := own]) [k..<n])"
proof (induction "n - k" arbitrary: k w)
  case 0
  then show ?case by simp
next
  case (Suc d)
  then have kn: "k < n" by linarith
  have IH: "weight_loop n own neigh [Suc k..<n] (w @ [(replicate n neigh)[k := own]])
      = Inr ((w @ [(replicate n neigh)[k := own]]) @ map (\<lambda>i. (replicate n neigh)[i := own]) [Suc k..<n])"
    using Suc.hyps(1)[of "Suc k" "w @ [(replicate n neigh)[k := own]]"] Suc.hyps(2) Suc.prems kn by simp
  have upd: "(w @ [replicate n neigh])[k := (replicate n neigh)[k := own]] = w @ [(replicate n neigh)[k := own]]"
    using Suc.prems(1) by (simp add: list_update_append)
  show ?case
    using kn Suc.prems(1) IH
    by (simp add: upt_conv_Cons getitem_def setitem_def nth_append upd)
qed

lemma init_weight:
  "weight_loop n own neigh [0..<n] [] = Inr (map (\<lambda>i. map (\<lambda>j. if i = j then own else neigh) [0..<n]) [0..<n])"
proof -
  have "map (\<lambda>i. (replicate n neigh)[i := own]) [0..<n] = map (\<lambda>i. map (\<lambda>j. if i = j then own else neigh) [0..<n]) [0..<n]"
    by (rule map_cong) (simp_all add: diag_row)
  then show ?thesis using weight_loop_rows[of "[]" 0 n own neigh] by simp
qed

text \<open>
  Claim C10. For every oscillator count \<open>n\<close> and weights \<open>own_weight\<close> and
  \<open>neigh_weight\<close>, the constructor returns a network with \<open>n\<close> zero states, with outputs
  and buffered outputs that are both \<open>n\<close> copies of \<open>-1\<close> (so the buffer equals the
  outputs), and with the \<open>n\<close> by \<open>n\<close> weight matrix that has \<open>own_weight\<close> on the diagonal
  and \<open>neigh_weight\<close> everywhere else.
\<close>

theorem init_fields:
  "hysteresis_network_init n own_weight neigh_weight conn =
     Inr \<lparr>num_osc = n, has_connection = conn,
          states = replicate n 0,
          outputs_buffer = replicate n (- 1),
          outputs = replicate n (- 1),
          weight = map (\<lambda>i. map (\<lambda>j. if i = j then own_weight else neigh_weight) [0..<n]) [0..<n]\<rparr>"
  by (simp add: hysteresis_network_init_def init_weight)

text \<open>
  The buffer agrees with the outputs after construction and after an assignment to the
  outputs; an assignment to the states keeps the agreement.
\<close>

lemma synced_after_init:
  "hysteresis_network_init n own_weight neigh_weight conn = Inr net \<Longrightarrow>
   outputs_buffer net = outputs net"
  by (auto simp add: hysteresis_network_init_def split: sum.splits)

lemma synced_after_set_outputs: "outputs_buffer (set_outputs vals net) = outputs (set_outputs vals net)"
  by (simp add: set_outputs_def)

lemma synced_after_set_states:
  "outputs_buffer net = outputs net \<Longrightarrow> outputs_buffer (set_states vals net) = outputs (set_states vals net)"
  by (simp add: set_states_def)

subsection \<open>The derivative function\<close>

lemma impact_loop_sum:
  "well_formed net \<Longrightarrow> index < num_osc net \<Longrightarrow> \<forall>j\<in>set js. j < num_osc net \<Longrightarrow>
   impact_loop net index js acc =
     Inr (acc + sum_list (map (\<lambda>j. weight net ! index ! j * outputs net ! j)
                           (filter (\<lambda>j. has_connection net j index) js)))"
proof (induction js arbitrary: acc)
  case Nil
  then show ?case by simp
next
  case (Cons j js)
  then have "length (weight net ! index) = num_osc net"
    by (simp add: well_formed_def list_all_length)
  with Cons show ?case
    by (simp add: getitem_def well_formed_def)
qed

lemma connected_sum:
  "sum_list (map f (filter P [0..<n])) = (\<Sum>j | j < n \<and> P j. f j)"
proof -
  have "sum_list (map f (filter P [0..<n])) = sum f (set (filter P [0..<n]))"
    by (rule sum_list_distinct_conv_sum_set) simp
  also have "set (filter P [0..<n]) = {j. j < n \<and> P j}" by auto
  finally show ?thesis .
qed

lemma neuron_states_value:
  assumes "well_formed net" "i < num_osc net"
  shows "neuron_states net [x] t i =
     (Inr (- x + (weight net ! i ! i * outputs net ! i +
                  (\<Sum>j | j < num_osc net \<and> has_connection net j i. weight net ! i ! j * outputs net ! j))),
      net\<lparr>outputs_buffer := (outputs_buffer net)[i := (if 1 < x then 1 else if x < - 1 then - 1 else outputs_buffer net ! i)]\<rparr>)"
proof -
  have row: "length (weight net ! i) = num_osc net"
    using assms by (simp add: well_formed_def list_all_length)
  have imp: "impact_loop net i [0..<num_osc net] (weight net ! i ! i * outputs net ! i) =
     Inr (weight net ! i ! i * outputs net ! i +
          (\<Sum>j | j < num_osc net \<and> has_connection net j i. weight net ! i ! j * outputs net ! j))"
    using impact_loop_sum[OF assms, of "[0..<num_osc net]"] by (simp add: connected_sum)
  show ?thesis
    using assms row imp
    by (simp add: neuron_states_def getitem_def setitem_def well_formed_def)
qed

text \<open>
  Claim C1. In a well-formed network, for every oscillator \<open>i\<close> and state value \<open>x\<close>,
  \<open>neuron_states\<close> returns \<open>-x + impact\<close>, where the impact is
  \<open>weight[i][i] * outputs[i]\<close> plus the sum of \<open>weight[i][j] * outputs[j]\<close> over the
  oscillators \<open>j\<close> for which the topology reports a connection from \<open>j\<close> to \<open>i\<close>. The
  call changes neither the states nor the outputs, and it returns the same value
  whatever the buffer holds: the impact is read from the outputs.
\<close>

theorem neuron_states_derivative:
  assumes "well_formed net" "i < num_osc net"
  shows "fst (neuron_states net [x] t i) =
           Inr (- x + (weight net ! i ! i * outputs net ! i +
                       (\<Sum>j | j < num_osc net \<and> has_connection net j i.
                          weight net ! i ! j * outputs net ! j)))
       \<and> states (snd (neuron_states net [x] t i)) = states net
       \<and> outputs (snd (neuron_states net [x] t i)) = outputs net
       \<and> (\<forall>b. length b = num_osc net \<longrightarrow>
             fst (neuron_states (net\<lparr>outputs_buffer := b\<rparr>) [x] t i) = fst (neuron_states net [x] t i))"
proof -
  have "well_formed (net\<lparr>outputs_buffer := b\<rparr>)" if "length b = num_osc net" for b
    using assms(1) that by (simp add: well_formed_def)
  then have "fst (neuron_states (net\<lparr>outputs_buffer := b\<rparr>) [x] t i) = fst (neuron_states net [x] t i)"
    if "length b = num_osc net" for b
    using that assms by (simp add: neuron_states_value)
  then show ?thesis
    using assms by (simp add: neuron_states_value)
qed

theorem neuron_states_derivative_witness:
  "well_formed example_network \<and> 0 < num_osc example_network
   \<and> fst (neuron_states example_network [1 / 2] 0 0) = Inr (- 11 / 2)
   \<and> fst (neuron_states (example_network\<lparr>outputs_buffer := [- 1, - 1]\<rparr>) [1 / 2] 0 0) = Inr (- 11 / 2)"
proof -
  have wf: "well_formed example_network" by (simp add: well_formed_def example_network_def)
  have i: "0 < num_osc example_network" by (simp add: example_network_def)
  have s: "{j. j < num_osc example_network \<and> has_connection example_network j 0} = {1}"
    by (auto simp add: example_network_def all_to_all_def)
  show ?thesis
    using wf i neuron_states_derivative[OF wf i, of "1 / 2" 0]
    by (simp add: s) (simp add: example_network_def)
qed

text \<open>
  Without any assumption on the network, \<open>neuron_states\<close> returns \<open>neuron_derivative\<close>
  and latches the buffer slot of its oscillator; \<open>neuron_derivative\<close> does not read the
  buffer.
\<close>

lemma neuron_states_split:
  "neuron_states net [y] t i =
     (case neuron_derivative net i y of
        Inl e \<Rightarrow> (Inl e, net)
      | Inr x \<Rightarrow>
          if (1 < y \<or> y < - 1) \<and> \<not> i < length (outputs_buffer net) then (Inl IndexError, net)
          else (Inr x, net\<lparr>outputs_buffer := (outputs_buffer net)[i := latch y (outputs_buffer net ! i)]\<rparr>))"
  by (simp add: neuron_states_def neuron_derivative_def getitem_def setitem_def latch_def
           split: sum.splits)

lemma impact_loop_buffer:
  "impact_loop (net\<lparr>outputs_buffer := b\<rparr>) i js acc = impact_loop net i js acc"
  by (induction js arbitrary: acc) (simp_all split: sum.splits)

lemma neuron_derivative_buffer:
  "neuron_derivative (net\<lparr>outputs_buffer := b\<rparr>) i = neuron_derivative net i"
  by (rule ext) (simp add: neuron_derivative_def impact_loop_buffer split: sum.splits)

subsection \<open>A call of the integrator\<close>

text \<open>
  A call of the integrator for oscillator \<open>i\<close> changes the network in the buffer slot
  \<open>i\<close> only, and its result and the new value of the slot depend on nothing else in the
  buffer.
\<close>

lemma odeint_call_slot:
  "odeint_call q i net =
     (fst (slot_run q (neuron_derivative net i) (i < length (outputs_buffer net)) (outputs_buffer net ! i)),
      net\<lparr>outputs_buffer := (outputs_buffer net)
             [i := snd (slot_run q (neuron_derivative net i) (i < length (outputs_buffer net)) (outputs_buffer net ! i))]\<rparr>)"
proof (induction q arbitrary: net)
  case (Trajectory r)
  show ?case by simp
next
  case (Derivative y t k)
  show ?case
  proof (cases "neuron_derivative net i y")
    case (Inl e)
    then show ?thesis by (simp add: neuron_states_split)
  next
    case (Inr x)
    show ?thesis
    proof (cases "(1 < y \<or> y < - 1) \<and> \<not> i < length (outputs_buffer net)")
      case True
      with Inr show ?thesis by (simp add: neuron_states_split)
    next
      case False
      let ?net1 = "net\<lparr>outputs_buffer := (outputs_buffer net)[i := latch y (outputs_buffer net ! i)]\<rparr>"
      have slot: "outputs_buffer ?net1 ! i = latch y (outputs_buffer net ! i)"
      proof (cases "i < length (outputs_buffer net)")
        case True
        then show ?thesis by simp
      next
        case False
        with \<open>\<not> ((1 < y \<or> y < - 1) \<and> \<not> i < length (outputs_buffer net))\<close>
        show ?thesis by (simp add: latch_def)
      qed
      have "odeint_call (Derivative y t k) i net = odeint_call (k x) i ?net1"
        using Inr False by (auto simp add: neuron_states_split)
      also have "\<dots> =
         (fst (slot_run (k x) (neuron_derivative ?net1 i) (i < length (outputs_buffer ?net1)) (outputs_buffer ?net1 ! i)),
          ?net1\<lparr>outputs_buffer := (outputs_buffer ?net1)
             [i := snd (slot_run (k x) (neuron_derivative ?net1 i) (i < length (outputs_buffer ?net1)) (outputs_buffer ?net1 ! i))]\<rparr>)"
        by (rule Derivative.IH) simp
      finally show ?thesis
        using Inr False slot by (auto simp add: neuron_derivative_buffer)
    qed
  qed
qed

subsection \<open>One macro step\<close>

lemma states_loop_body:
  "states_loop odeint t step int_step (i # rest) ns net =
     (case getitem (states net) i of Inl e \<Rightarrow> (Inl e, net) | Inr y0 \<Rightarrow>
     (case arange (t - step) t int_step of Inl e \<Rightarrow> (Inl e, net) | Inr ts \<Rightarrow>
     (case slot_run (odeint y0 ts) (neuron_derivative net i) (i < length (outputs_buffer net))
             (outputs_buffer net ! i) of
        (Inl e, v) \<Rightarrow> (Inl e, net\<lparr>outputs_buffer := (outputs_buffer net)[i := v]\<rparr>)
      | (Inr result, v) \<Rightarrow>
     (case getitem result (length result - 1) of
        Inl e \<Rightarrow> (Inl e, net\<lparr>outputs_buffer := (outputs_buffer net)[i := v]\<rparr>)
      | Inr s \<Rightarrow>
     (case setitem ns i s of
        Inl e \<Rightarrow> (Inl e, net\<lparr>outputs_buffer := (outputs_buffer net)[i := v]\<rparr>)
      | Inr ns1 \<Rightarrow>
          states_loop odeint t step int_step rest ns1
            (net\<lparr>outputs_buffer := (outputs_buffer net)[i := v]\<rparr>))))))"
proof (cases "getitem (states net) i")
  case (Inl e)
  then show ?thesis by simp
next
  case y0: (Inr y0)
  show ?thesis
  proof (cases "arange (t - step) t int_step")
    case (Inl e)
    with y0 show ?thesis by simp
  next
    case ts: (Inr ts)
    obtain a v where sr: "slot_run (odeint y0 ts) (neuron_derivative net i)
        (i < length (outputs_buffer net)) (outputs_buffer net ! i) = (a, v)"
      by (cases "slot_run (odeint y0 ts) (neuron_derivative net i)
        (i < length (outputs_buffer net)) (outputs_buffer net ! i)")
    have oc: "odeint_call (odeint y0 ts) i net =
        (a, net\<lparr>outputs_buffer := (outputs_buffer net)[i := v]\<rparr>)"
      by (subst odeint_call_slot) (simp add: sr)
    show ?thesis
      using y0 ts sr oc by (cases a) simp_all
  qed
qed

lemma osc_step_Inr:
  assumes "osc_step odeint t step int_step net i = Inr (s, v)"
  obtains y0 ts result where "getitem (states net) i = Inr y0"
    and "arange (t - step) t int_step = Inr ts"
    and "slot_run (odeint y0 ts) (neuron_derivative net i) (i < length (outputs_buffer net))
             (outputs_buffer net ! i) = (Inr result, v)"
    and "getitem result (length result - 1) = Inr s"
  using assms
  by (auto simp add: osc_step_def split: sum.splits prod.splits)

lemma states_loop_ok:
  assumes "osc_step odeint t step int_step net i = Inr (s, v)" "i < length ns"
  shows "states_loop odeint t step int_step (i # rest) ns net =
         states_loop odeint t step int_step rest (ns[i := s])
           (net\<lparr>outputs_buffer := (outputs_buffer net)[i := v]\<rparr>)"
proof -
  from assms(1) obtain y0 ts result where "getitem (states net) i = Inr y0"
    and "arange (t - step) t int_step = Inr ts"
    and "slot_run (odeint y0 ts) (neuron_derivative net i) (i < length (outputs_buffer net))
             (outputs_buffer net ! i) = (Inr result, v)"
    and "getitem result (length result - 1) = Inr s"
    by (rule osc_step_Inr)
  then show ?thesis
    using assms(2) by (simp add: states_loop_body setitem_def del: states_loop.simps)
qed

lemma states_loop_Inr:
  assumes "states_loop odeint t step int_step (i # rest) ns net = (Inr r, net')"
  shows "i < length ns \<and> (\<exists>sv. osc_step odeint t step int_step net i = Inr sv)"
  using assms unfolding states_loop_body osc_step_def setitem_def
  by (auto split: sum.splits prod.splits if_splits)

lemma states_loop_err:
  assumes "osc_step odeint t step int_step net i = Inl e \<or> \<not> i < length ns"
  shows "\<exists>e' net'. states_loop odeint t step int_step (i # rest) ns net = (Inl e', net')"
proof (cases "states_loop odeint t step int_step (i # rest) ns net")
  case (Pair a net')
  show ?thesis
  proof (cases a)
    case (Inl e')
    with Pair show ?thesis by blast
  next
    case (Inr r)
    with Pair states_loop_Inr[of odeint t step int_step i rest ns net r net'] assms
    show ?thesis by auto
  qed
qed

lemma osc_step_frame:
  "k \<noteq> i \<Longrightarrow>
   osc_step odeint t step int_step (net\<lparr>outputs_buffer := (outputs_buffer net)[i := v]\<rparr>) k =
   osc_step odeint t step int_step net k"
  by (simp add: osc_step_def neuron_derivative_buffer cong: sum.case_cong)

lemma new_states_step:
  assumes "osc_step odeint t step int_step net i = Inr (s, v)" "i \<notin> D"
  shows "new_states odeint t step int_step (net\<lparr>outputs_buffer := (outputs_buffer net)[i := v]\<rparr>) D (ns[i := s])
       = new_states odeint t step int_step net (insert i D) ns"
proof -
  have "k \<in> D \<Longrightarrow> osc_step odeint t step int_step
          (net\<lparr>outputs_buffer := (outputs_buffer net)[i := v]\<rparr>) k = osc_step odeint t step int_step net k" for k
    using assms(2) by (intro osc_step_frame) auto
  moreover have "k \<in> D \<Longrightarrow> ns[i := s] ! k = ns ! k" for k
    using assms(2) by (intro nth_list_update_neq) auto
  ultimately show ?thesis
    unfolding new_states_def using assms(1)
    by (auto simp add: nth_list_update split: sum.splits)
qed

lemma new_buffer_step:
  assumes "osc_step odeint t step int_step net i = Inr (s, v)" "i \<notin> D"
  shows "new_buffer odeint t step int_step (net\<lparr>outputs_buffer := (outputs_buffer net)[i := v]\<rparr>) D
       = new_buffer odeint t step int_step net (insert i D)"
proof -
  have "k \<in> D \<Longrightarrow> osc_step odeint t step int_step
          (net\<lparr>outputs_buffer := (outputs_buffer net)[i := v]\<rparr>) k = osc_step odeint t step int_step net k" for k
    using assms(2) by (intro osc_step_frame) auto
  moreover have "k \<in> D \<Longrightarrow> (outputs_buffer net)[i := v] ! k = outputs_buffer net ! k" for k
    using assms(2) by (intro nth_list_update_neq) auto
  ultimately show ?thesis
    unfolding new_buffer_def using assms(1)
    by (auto simp add: nth_list_update split: sum.splits)
qed

lemma new_states_empty: "new_states odeint t step int_step net {} ns = ns"
  by (simp add: new_states_def map_nth)

lemma new_buffer_empty: "new_buffer odeint t step int_step net {} = outputs_buffer net"
  by (simp add: new_buffer_def map_nth)

text \<open>
  The loop over a sequence of distinct oscillators returns when every one of them
  returns, and then the new states and the new buffer depend on the set of the
  oscillators only, not on their order.
\<close>

lemma states_loop_success:
  "distinct order \<Longrightarrow> steps_ok odeint t step int_step net (set order) (length ns) \<Longrightarrow>
   states_loop odeint t step int_step order ns net =
     (Inr (new_states odeint t step int_step net (set order) ns),
      net\<lparr>outputs_buffer := new_buffer odeint t step int_step net (set order)\<rparr>)"
proof (induction order arbitrary: ns net)
  case Nil
  show ?case by (simp add: new_states_empty new_buffer_empty)
next
  case (Cons i rest)
  from Cons.prems obtain s v where sv: "osc_step odeint t step int_step net i = Inr (s, v)"
    and i: "i < length ns"
    by (auto simp add: steps_ok_def)
  let ?net1 = "net\<lparr>outputs_buffer := (outputs_buffer net)[i := v]\<rparr>"
  have fresh: "i \<notin> set rest" and d: "distinct rest" using Cons.prems by simp_all
  have same: "k \<in> set rest \<Longrightarrow> osc_step odeint t step int_step ?net1 k = osc_step odeint t step int_step net k" for k
    using fresh by (intro osc_step_frame) auto
  have ok1: "steps_ok odeint t step int_step ?net1 (set rest) (length (ns[i := s]))"
    using Cons.prems(2)
    by (simp add: steps_ok_def same)
  have "states_loop odeint t step int_step (i # rest) ns net =
        states_loop odeint t step int_step rest (ns[i := s]) ?net1"
    by (rule states_loop_ok[OF sv i])
  also have "\<dots> = (Inr (new_states odeint t step int_step ?net1 (set rest) (ns[i := s])),
      ?net1\<lparr>outputs_buffer := new_buffer odeint t step int_step ?net1 (set rest)\<rparr>)"
    by (rule Cons.IH[OF d ok1])
  finally show ?case
    by (simp add: new_states_step[OF sv fresh] new_buffer_step[OF sv fresh])
qed

lemma states_loop_failure:
  "distinct order \<Longrightarrow> \<not> steps_ok odeint t step int_step net (set order) (length ns) \<Longrightarrow>
   \<exists>e net'. states_loop odeint t step int_step order ns net = (Inl e, net')"
proof (induction order arbitrary: ns net)
  case Nil
  then show ?case by (simp add: steps_ok_def)
next
  case (Cons i rest)
  show ?case
  proof (cases "\<exists>sv. osc_step odeint t step int_step net i = Inr sv \<and> i < length ns")
    case False
    then have "osc_step odeint t step int_step net i = Inl (projl (osc_step odeint t step int_step net i))
               \<or> \<not> i < length ns"
      by (cases "osc_step odeint t step int_step net i") auto
    then show ?thesis by (rule states_loop_err)
  next
    case True
    then obtain s v where sv: "osc_step odeint t step int_step net i = Inr (s, v)"
      and i: "i < length ns" by auto
    let ?net1 = "net\<lparr>outputs_buffer := (outputs_buffer net)[i := v]\<rparr>"
    have fresh: "i \<notin> set rest" and d: "distinct rest" using Cons.prems by simp_all
    have same: "k \<in> set rest \<Longrightarrow> osc_step odeint t step int_step ?net1 k = osc_step odeint t step int_step net k" for k
      using fresh by (intro osc_step_frame) auto
    have bad: "\<not> steps_ok odeint t step int_step ?net1 (set rest) (length (ns[i := s]))"
      using Cons.prems(2) sv i
      by (simp add: steps_ok_def same)
    show ?thesis
      using Cons.IH[OF d bad] states_loop_ok[OF sv i, of rest] by simp
  qed
qed

lemma calculate_states_in_cases:
  assumes "distinct order"
  shows "if steps_ok odeint t step int_step net (set order) (num_osc net)
         then calculate_states_in order odeint net sol t step int_step =
                (Inr (new_states odeint t step int_step net (set order) (replicate (num_osc net) 0)),
                 net\<lparr>outputs_buffer := new_buffer odeint t step int_step net (set order),
                     outputs := new_buffer odeint t step int_step net (set order)\<rparr>)
         else (\<exists>e net'. calculate_states_in order odeint net sol t step int_step = (Inl e, net'))"
proof (cases "steps_ok odeint t step int_step net (set order) (num_osc net)")
  case True
  then have "steps_ok odeint t step int_step net (set order) (length (replicate (num_osc net) (0::real)))"
    by simp
  from states_loop_success[OF assms this] True show ?thesis
    by (simp add: calculate_states_in_def)
next
  case False
  then have "\<not> steps_ok odeint t step int_step net (set order) (length (replicate (num_osc net) (0::real)))"
    by simp
  from states_loop_failure[OF assms this] False show ?thesis
    by (auto simp add: calculate_states_in_def)
qed

lemma states_loop_outputs:
  "outputs (snd (states_loop odeint t step int_step order ns net)) = outputs net"
proof (induction order arbitrary: ns net)
  case Nil
  show ?case by simp
next
  case (Cons i rest)
  show ?case
    unfolding states_loop_body
    by (simp add: Cons.IH split: sum.splits prod.splits)
qed

lemma calculate_states_in_failed:
  "calculate_states_in order odeint net sol t step int_step = (Inl e, net') \<Longrightarrow>
   outputs net' = outputs net"
  using states_loop_outputs[of odeint t step int_step order "replicate (num_osc net) 0" net]
  by (auto simp add: calculate_states_in_def split: prod.splits sum.splits)

lemma synced_after_macro_step:
  "calculate_states odeint net sol t step int_step = (Inr next_states, net') \<Longrightarrow>
   outputs_buffer net' = outputs net'"
  by (auto simp add: calculate_states_def calculate_states_in_def split: prod.splits sum.splits)

lemma flipping_step:
  "calculate_states line_integrator flipping_network RK4 1 1 (1 / 10) =
     (Inr [29 / 10, - 3], flipping_network\<lparr>outputs_buffer := [1, - 1], outputs := [1, - 1]\<rparr>)"
  by (simp add: calculate_states_def calculate_states_in_def flipping_network_def example_network_def
        set_states_def set_outputs_def line_integrator_def arange_def getitem_def setitem_def
        neuron_states_def all_to_all_def upt_rec numeral_2_eq_2)

text \<open>
  Claim C3. One macro step does not depend on the order of the oscillators. For every
  network, integrator, time and step, and every permutation \<open>order\<close> of the indices
  \<open>0, ..., num_osc - 1\<close>: when the macro step in index order returns, the macro step
  run in the order \<open>order\<close> returns the same new states and leaves the same network, the
  outputs and the buffer included; and when the one raises, so does the other.
\<close>

theorem macro_step_order_independent:
  assumes "mset order = mset [0..<num_osc net]"
  shows "(\<exists>next_states net'.
            calculate_states odeint net sol t step int_step = (Inr next_states, net') \<and>
            calculate_states_in order odeint net sol t step int_step = (Inr next_states, net'))
       \<or> (\<exists>e net1 e' net2.
            calculate_states odeint net sol t step int_step = (Inl e, net1) \<and>
            calculate_states_in order odeint net sol t step int_step = (Inl e', net2))"
proof -
  have d: "distinct order"
    using assms by (metis distinct_upt mset_eq_imp_distinct_iff)
  have s: "set order = set [0..<num_osc net]"
    using assms by (rule mset_eq_setD)
  have d0: "distinct [0..<num_osc net]" by simp
  show ?thesis
    using calculate_states_in_cases[OF d, of odeint t step int_step net sol]
          calculate_states_in_cases[OF d0, of odeint t step int_step net sol]
    unfolding calculate_states_def s
    by (cases "steps_ok odeint t step int_step net (set [0..<num_osc net]) (num_osc net)") auto
qed

theorem macro_step_order_independent_witness:
  "mset [1, 0] = mset [0..<num_osc flipping_network] \<and>
   calculate_states_in [1, 0] line_integrator flipping_network RK4 1 1 (1 / 10) =
     (Inr [29 / 10, - 3], flipping_network\<lparr>outputs_buffer := [1, - 1], outputs := [1, - 1]\<rparr>)"
proof -
  have p: "mset [1, 0] = mset [0..<num_osc flipping_network]"
    by (simp add: flipping_network_def example_network_def set_states_def set_outputs_def upt_rec)
  show ?thesis
    using p macro_step_order_independent[OF p, of line_integrator RK4 1 1 "1 / 10"]
    by (simp add: flipping_step)
qed

subsection \<open>The hysteresis dead band\<close>

lemma latch_dead_band: "- 1 < y \<Longrightarrow> y < 1 \<Longrightarrow> latch y b = b"
  by (simp add: latch_def)

lemma neuron_states_dead_band:
  assumes "- 1 < y" "y < 1"
  shows "neuron_states net [y] t i =
           (case neuron_derivative net i y of Inl e \<Rightarrow> (Inl e, net) | Inr x \<Rightarrow> (Inr x, net))"
  using assms by (simp add: neuron_states_split latch_dead_band split: sum.splits)

lemma odeint_call_dead_band:
  "\<forall>y\<in>set (odeint_evals q i net). - 1 < y \<and> y < 1 \<Longrightarrow> snd (odeint_call q i net) = net"
proof (induction q arbitrary: net)
  case (Trajectory r)
  show ?case by simp
next
  case (Derivative y t k)
  from Derivative.prems have y: "- 1 < y" "y < 1" by simp_all
  show ?case
  proof (cases "neuron_derivative net i y")
    case (Inl e)
    then show ?thesis by (simp add: neuron_states_dead_band[OF y])
  next
    case (Inr x)
    with Derivative.prems have "\<forall>y\<in>set (odeint_evals (k x) i net). - 1 < y \<and> y < 1"
      by (simp add: neuron_states_dead_band[OF y])
    then have "snd (odeint_call (k x) i net) = net"
      by (rule Derivative.IH[OF rangeI])
    with Inr show ?thesis by (simp add: neuron_states_dead_band[OF y])
  qed
qed

lemma slot_run_dead_band:
  assumes "\<forall>y\<in>set (odeint_evals q i net). - 1 < y \<and> y < 1" "i < length (outputs_buffer net)"
  shows "snd (slot_run q (neuron_derivative net i) (i < length (outputs_buffer net))
            (outputs_buffer net ! i)) = outputs_buffer net ! i"
proof -
  let ?v = "snd (slot_run q (neuron_derivative net i) (i < length (outputs_buffer net))
            (outputs_buffer net ! i))"
  have "net\<lparr>outputs_buffer := (outputs_buffer net)[i := ?v]\<rparr> = net"
    using odeint_call_dead_band[OF assms(1)] by (subst (asm) odeint_call_slot) simp
  then have "outputs_buffer (net\<lparr>outputs_buffer := (outputs_buffer net)[i := ?v]\<rparr>) ! i
             = outputs_buffer net ! i"
    by simp
  with assms(2) show ?thesis by simp
qed

lemma new_buffer_dead_band:
  assumes "i < length (outputs_buffer net)"
    and "osc_step odeint t step int_step net i = Inr (s, v)"
    and "arange (t - step) t int_step = Inr ts"
    and "\<forall>y\<in>set (odeint_evals (odeint (states net ! i) ts) i net). - 1 < y \<and> y < 1"
  shows "v = outputs_buffer net ! i"
proof -
  from assms(2) obtain y0 ts' result where y0: "getitem (states net) i = Inr y0"
    and ts': "arange (t - step) t int_step = Inr ts'"
    and sr: "slot_run (odeint y0 ts') (neuron_derivative net i) (i < length (outputs_buffer net))
             (outputs_buffer net ! i) = (Inr result, v)"
    by (rule osc_step_Inr)
  from y0 have "y0 = states net ! i" by (simp add: getitem_def split: if_splits)
  moreover from ts' assms(3) have "ts' = ts" by simp
  ultimately show ?thesis
    using slot_run_dead_band[OF assms(4) assms(1)] sr by simp
qed

lemma macro_step_dead_band:
  assumes "i < num_osc net" "i < length (outputs_buffer net)"
    and "outputs_buffer net ! i = outputs net ! i"
    and "arange (t - step) t int_step = Inr ts"
    and "\<forall>y\<in>set (odeint_evals (odeint (states net ! i) ts) i net). - 1 < y \<and> y < 1"
  shows "outputs (snd (calculate_states odeint net sol t step int_step)) ! i = outputs net ! i"
proof (cases "steps_ok odeint t step int_step net (set [0..<num_osc net]) (num_osc net)")
  case False
  with calculate_states_in_cases[of "[0..<num_osc net]" odeint t step int_step net sol]
  obtain e net' where "calculate_states odeint net sol t step int_step = (Inl e, net')"
    by (auto simp add: calculate_states_def)
  then show ?thesis
    using calculate_states_in_failed[of "[0..<num_osc net]" odeint net sol t step int_step e net']
    by (simp add: calculate_states_def)
next
  case True
  from assms(1) have "i \<in> set [0..<num_osc net]" by simp
  with True have "\<exists>sv. osc_step odeint t step int_step net i = Inr sv"
    unfolding steps_ok_def by blast
  then obtain s v where sv: "osc_step odeint t step int_step net i = Inr (s, v)"
    by auto
  have v: "v = outputs_buffer net ! i"
    by (rule new_buffer_dead_band[OF assms(2) sv assms(4) assms(5)])
  have "calculate_states odeint net sol t step int_step =
          (Inr (new_states odeint t step int_step net (set [0..<num_osc net]) (replicate (num_osc net) 0)),
           net\<lparr>outputs_buffer := new_buffer odeint t step int_step net (set [0..<num_osc net]),
               outputs := new_buffer odeint t step int_step net (set [0..<num_osc net])\<rparr>)"
    using True calculate_states_in_cases[of "[0..<num_osc net]" odeint t step int_step net sol]
    by (simp add: calculate_states_def)
  then have "outputs (snd (calculate_states odeint net sol t step int_step)) ! i =
             new_buffer odeint t step int_step net (set [0..<num_osc net]) ! i"
    by simp
  also have "\<dots> = v"
    using assms(1,2) sv by (simp add: new_buffer_def)
  finally show ?thesis using v assms(3) by simp
qed

text \<open>
  Claim C2. In a well-formed network, for every oscillator \<open>i\<close>, one evaluation of
  \<open>neuron_states\<close> at the state value \<open>x\<close> sets \<open>outputs_buffer[i]\<close> to \<open>1\<close> when
  \<open>x > 1\<close>, to \<open>-1\<close> when \<open>x < -1\<close>, and leaves it as it is otherwise; nothing else in
  the network changes. Consequently, when the buffer slot of the oscillator agrees with
  its output as the macro step starts (as it does after construction, after an
  assignment to the outputs and after every macro step), and every state value that the
  integrator passes to the derivative function for this oscillator lies strictly between
  \<open>-1\<close> and \<open>1\<close>, the oscillator has the same output after the macro step as before.
\<close>

theorem hysteresis_latch_dead_band:
  assumes "well_formed net" "i < num_osc net"
  shows "snd (neuron_states net [x] t0 i) =
           net\<lparr>outputs_buffer := (outputs_buffer net)
                 [i := (if 1 < x then 1 else if x < - 1 then - 1 else outputs_buffer net ! i)]\<rparr>
       \<and> (outputs_buffer net ! i = outputs net ! i \<longrightarrow>
          arange (t - step) t int_step = Inr ts \<longrightarrow>
          (\<forall>y\<in>set (odeint_evals (odeint (states net ! i) ts) i net). - 1 < y \<and> y < 1) \<longrightarrow>
          outputs (snd (calculate_states odeint net sol t step int_step)) ! i = outputs net ! i)"
proof -
  have "i < length (outputs_buffer net)" using assms by (simp add: well_formed_def)
  then show ?thesis
    using assms macro_step_dead_band[of i net t step int_step ts odeint sol]
    by (simp add: neuron_states_value)
qed

lemma example_grid:
  "arange (1 - 1) 1 (1 / 10) = Inr [0, 1 / 10, 2 / 10, 3 / 10, 4 / 10, 5 / 10, 6 / 10, 7 / 10, 8 / 10, 9 / 10]"
  by (simp add: arange_def upt_rec)

theorem hysteresis_latch_dead_band_witness:
  "well_formed example_network \<and> 1 < num_osc example_network
   \<and> snd (neuron_states example_network [- 2] 0 1) = example_network\<lparr>outputs_buffer := [1, - 1]\<rparr>
   \<and> outputs_buffer example_network ! 1 = outputs example_network ! 1
   \<and> odeint_evals (line_integrator (states example_network ! 1)
        [0, 1 / 10, 2 / 10, 3 / 10, 4 / 10, 5 / 10, 6 / 10, 7 / 10, 8 / 10, 9 / 10]) 1 example_network = [0]
   \<and> outputs (snd (calculate_states line_integrator example_network RK4 1 1 (1 / 10))) ! 1 = 1"
proof -
  have wf: "well_formed example_network" by (simp add: well_formed_def example_network_def)
  have i: "1 < num_osc example_network" by (simp add: example_network_def)
  have ev: "odeint_evals (line_integrator (states example_network ! 1)
        [0, 1 / 10, 2 / 10, 3 / 10, 4 / 10, 5 / 10, 6 / 10, 7 / 10, 8 / 10, 9 / 10]) 1 example_network = [0]"
    by (simp add: line_integrator_def example_network_def neuron_states_def getitem_def
          all_to_all_def upt_rec numeral_2_eq_2)
  have sync: "outputs_buffer example_network ! 1 = outputs example_network ! 1"
    by (simp add: example_network_def)
  note inst = hysteresis_latch_dead_band[OF wf i, of "- 2" 0 1 1 "1 / 10"
      "[0, 1 / 10, 2 / 10, 3 / 10, 4 / 10, 5 / 10, 6 / 10, 7 / 10, 8 / 10, 9 / 10]" line_integrator RK4]
  have a: "snd (neuron_states example_network [- 2] 0 1) = example_network\<lparr>outputs_buffer := [1, - 1]\<rparr>"
    using inst by (simp add: example_network_def)
  have b: "outputs (snd (calculate_states line_integrator example_network RK4 1 1 (1 / 10))) ! 1 = 1"
    using inst sync example_grid ev by (simp add: example_network_def)
  show ?thesis using wf i a sync ev b by simp
qed

subsection \<open>Outputs stay in the two-valued set\<close>

lemma bipolar_update: "bipolar xs \<Longrightarrow> v = - 1 \<or> v = 1 \<Longrightarrow> bipolar (xs[i := v])"
  unfolding bipolar_def using set_update_subset_insert[of xs i v] by auto

lemma bipolar_latch:
  assumes "bipolar b"
  shows "bipolar (b[i := latch y (b ! i)])"
proof (cases "1 < y \<or> y < - 1")
  case True
  then have "latch y (b ! i) = - 1 \<or> latch y (b ! i) = 1" by (auto simp add: latch_def)
  with assms show ?thesis by (rule bipolar_update)
next
  case False
  then have "latch y (b ! i) = b ! i" by (simp add: latch_def)
  with assms show ?thesis by simp
qed

lemma neuron_states_bipolar:
  assumes "bipolar (outputs_buffer net)"
  shows "bipolar (outputs_buffer (snd (neuron_states net [y] t i)))
       \<and> outputs (snd (neuron_states net [y] t i)) = outputs net"
  using assms bipolar_latch[OF assms, of i y]
  by (simp add: neuron_states_split split: sum.splits)

lemma odeint_call_bipolar:
  "bipolar (outputs_buffer net) \<Longrightarrow>
   bipolar (outputs_buffer (snd (odeint_call q i net))) \<and> outputs (snd (odeint_call q i net)) = outputs net"
proof (induction q arbitrary: net)
  case (Trajectory r)
  then show ?case by simp
next
  case (Derivative y t k)
  obtain a net1 where ns: "neuron_states net [y] t i = (a, net1)"
    by (cases "neuron_states net [y] t i")
  with neuron_states_bipolar[OF Derivative.prems, of y t i]
  have b1: "bipolar (outputs_buffer net1)" and o1: "outputs net1 = outputs net" by simp_all
  show ?case
  proof (cases a)
    case (Inl e)
    with ns b1 o1 show ?thesis by simp
  next
    case (Inr x)
    from Derivative.IH[OF rangeI b1, of x] ns Inr o1 show ?thesis by simp
  qed
qed

lemma states_loop_bipolar:
  "bipolar (outputs_buffer net) \<Longrightarrow>
   bipolar (outputs_buffer (snd (states_loop odeint t step int_step order ns net)))"
proof (induction order arbitrary: ns net)
  case Nil
  then show ?case by simp
next
  case (Cons i rest)
  have step: "bipolar (outputs_buffer (snd (odeint_call q i net)))" for q
    using odeint_call_bipolar[OF Cons.prems] by simp
  show ?case
  proof (cases "getitem (states net) i")
    case (Inl e)
    with Cons.prems show ?thesis by simp
  next
    case y0: (Inr y0)
    show ?thesis
    proof (cases "arange (t - step) t int_step")
      case (Inl e)
      with y0 Cons.prems show ?thesis by simp
    next
      case ts: (Inr ts)
      obtain a net1 where oc: "odeint_call (odeint y0 ts) i net = (a, net1)"
        by (cases "odeint_call (odeint y0 ts) i net")
      with step[of "odeint y0 ts"] have b1: "bipolar (outputs_buffer net1)" by simp
      show ?thesis
        using y0 ts oc b1 Cons.IH[OF b1]
        by (simp split: sum.splits)
    qed
  qed
qed

lemma calculate_states_bipolar:
  assumes "bipolar (outputs net)" "bipolar (outputs_buffer net)"
  shows "bipolar (outputs (snd (calculate_states odeint net sol t step int_step)))
       \<and> bipolar (outputs_buffer (snd (calculate_states odeint net sol t step int_step)))"
proof -
  obtain a net1 where sl: "states_loop odeint t step int_step [0..<num_osc net]
      (replicate (num_osc net) 0) net = (a, net1)"
    by (cases "states_loop odeint t step int_step [0..<num_osc net] (replicate (num_osc net) 0) net")
  have b1: "bipolar (outputs_buffer net1)"
    using states_loop_bipolar[OF assms(2), of odeint t step int_step "[0..<num_osc net]"
            "replicate (num_osc net) 0"] sl by simp
  have o1: "outputs net1 = outputs net"
    using states_loop_outputs[of odeint t step int_step "[0..<num_osc net]"
            "replicate (num_osc net) 0" net] sl by simp
  show ?thesis
    using sl b1 o1 assms(1)
    by (cases a) (simp_all add: calculate_states_def calculate_states_in_def)
qed

lemma simulate_loop_bipolar:
  "bipolar (outputs net) \<Longrightarrow> bipolar (outputs_buffer net) \<Longrightarrow>
   bipolar (outputs (snd (simulate_loop odeint sol step int_step collect ts dyn net)))
   \<and> bipolar (outputs_buffer (snd (simulate_loop odeint sol step int_step collect ts dyn net)))"
proof (induction ts arbitrary: dyn net)
  case Nil
  then show ?case by simp
next
  case (Cons t rest)
  obtain a net1 where cs: "calculate_states odeint net sol t step int_step = (a, net1)"
    by (cases "calculate_states odeint net sol t step int_step")
  with calculate_states_bipolar[OF Cons.prems, of odeint sol t step int_step]
  have b: "bipolar (outputs net1)" "bipolar (outputs_buffer net1)" by simp_all
  show ?case
  proof (cases a)
    case (Inl e)
    with cs b show ?thesis by simp
  next
    case (Inr next_states)
    have b2: "bipolar (outputs (net1\<lparr>states := next_states\<rparr>))"
         "bipolar (outputs_buffer (net1\<lparr>states := next_states\<rparr>))"
      using b by simp_all
    show ?thesis
      using cs Inr b Cons.IH[OF b2]
      by (cases collect) (simp_all add: Let_def split: dynamic.splits)
  qed
qed

lemma simulate_static_bipolar:
  assumes "bipolar (outputs net)" "bipolar (outputs_buffer net)"
  shows "bipolar (outputs (snd (simulate_static odeint net steps time sol collect)))
       \<and> bipolar (outputs_buffer (snd (simulate_static odeint net steps time sol collect)))"
  using assms simulate_loop_bipolar[OF assms]
  by (simp add: simulate_static_def Let_def split: sum.splits)

text \<open>
  Claim C9. When every entry of the outputs and of the buffer is \<open>-1\<close> or \<open>1\<close>, this is
  still so after one macro step, after the loop of the simulation over any sequence
  \<open>ts\<close> of macro step times (hence after every macro step of a simulation), and after a
  call of \<open>simulate\<close>, whether the call returns or raises.
\<close>

theorem outputs_stay_bipolar:
  assumes "set (outputs net) \<subseteq> {- 1, 1}" "set (outputs_buffer net) \<subseteq> {- 1, 1}"
  shows "set (outputs (snd (calculate_states odeint net sol t step int_step))) \<subseteq> {- 1, 1}
       \<and> set (outputs_buffer (snd (calculate_states odeint net sol t step int_step))) \<subseteq> {- 1, 1}
       \<and> set (outputs (snd (simulate_loop odeint sol step int_step collect ts dyn net))) \<subseteq> {- 1, 1}
       \<and> set (outputs_buffer (snd (simulate_loop odeint sol step int_step collect ts dyn net))) \<subseteq> {- 1, 1}
       \<and> set (outputs (snd (simulate odeint net steps time sol collect))) \<subseteq> {- 1, 1}
       \<and> set (outputs_buffer (snd (simulate odeint net steps time sol collect))) \<subseteq> {- 1, 1}"
  using assms calculate_states_bipolar[of net odeint sol t step int_step]
    simulate_loop_bipolar[of net odeint sol step int_step collect ts dyn]
    simulate_static_bipolar[of net odeint steps time sol collect]
  by (simp add: bipolar_def simulate_def)

theorem outputs_stay_bipolar_witness:
  "set (outputs flipping_network) \<subseteq> {- 1, 1} \<and> set (outputs_buffer flipping_network) \<subseteq> {- 1, 1}
   \<and> outputs (snd (calculate_states line_integrator flipping_network RK4 1 1 (1 / 10))) = [1, - 1]
   \<and> set (outputs (snd (calculate_states line_integrator flipping_network RK4 1 1 (1 / 10)))) \<subseteq> {- 1, 1}
   \<and> set (outputs_buffer (snd (calculate_states line_integrator flipping_network RK4 1 1 (1 / 10)))) \<subseteq> {- 1, 1}
   \<and> set (outputs (snd (simulate line_integrator flipping_network 1 1 RK4 False))) \<subseteq> {- 1, 1}
   \<and> set (outputs_buffer (snd (simulate line_integrator flipping_network 1 1 RK4 False))) \<subseteq> {- 1, 1}"
proof -
  have h: "set (outputs flipping_network) \<subseteq> {- 1, 1}" "set (outputs_buffer flipping_network) \<subseteq> {- 1, 1}"
    by (simp_all add: flipping_network_def set_states_def set_outputs_def example_network_def)
  show ?thesis
    using h outputs_stay_bipolar[OF h, of line_integrator RK4 1 1 "1 / 10" False "[]" NoDynamic 1 1]
    by (simp add: flipping_step)
qed

subsection \<open>The simulation\<close>















text \<open>
  Claim C8. For every network, step count and horizon, \<open>simulate\<close> and
  \<open>simulate_static\<close> with the selector \<open>FAST\<close> or \<open>RKF45\<close> raise a \<open>NameError\<close> and
  leave the network exactly as it was: states, outputs and buffer included.
\<close>

theorem rejected_methods_raise:
  assumes "solution = FAST \<or> solution = RKF45"
  shows "(\<exists>msg. simulate odeint net steps time solution collect_dynamic = (Inl (NameError msg), net))
       \<and> (\<exists>msg. simulate_static odeint net steps time solution collect_dynamic = (Inl (NameError msg), net))"
  using assms by (auto simp add: simulate_def simulate_static_def)

theorem rejected_methods_raise_witness:
  "(FAST = FAST \<or> FAST = RKF45)
   \<and> (\<exists>msg. simulate line_integrator example_network 2 1 FAST True = (Inl (NameError msg), example_network))
   \<and> (\<exists>msg. simulate_static line_integrator example_network 2 1 FAST True = (Inl (NameError msg), example_network))
   \<and> (\<exists>msg. simulate line_integrator example_network 2 1 RKF45 False = (Inl (NameError msg), example_network))"
proof -
  have a: "FAST = FAST \<or> FAST = RKF45" by simp
  have b: "RKF45 = FAST \<or> RKF45 = RKF45" by simp
  show ?thesis
    using rejected_methods_raise[OF a, of line_integrator example_network 2 1 True]
      rejected_methods_raise[OF b, of line_integrator example_network 2 1 False]
    by simp
qed

lemma simulate_dynamic_raises:
  "\<exists>msg. simulate_dynamic net order solution collect_dynamic step int_step threshold_changes =
     (Inl (NameError msg), net)"
  by (simp add: simulate_dynamic_def)

text \<open>
  Claim C7. The time points of a macro step. For the macro step that ends at \<open>t = 1\<close>
  with \<open>step = 1\<close> and \<open>int_step = 1 / 10\<close>, the integrator is given the ten time
  points \<open>0, 1 / 10, ..., 9 / 10\<close>: the half-open range leaves \<open>t\<close> out. With the
  integrator that returns its time points, \<open>simulate\<close> over one step of horizon 1
  records the state \<open>9 / 10\<close> under the time 1.
\<close>

theorem macro_step_stops_before_t:
  "arange (1 - 1) 1 (1 / 10) =
     Inr [0, 1 / 10, 2 / 10, 3 / 10, 4 / 10, 5 / 10, 6 / 10, 7 / 10, 8 / 10, 9 / 10]
   \<and> simulate probe_integrator single_network 1 1 RK4 False =
       (Inr (Final 1 [9 / 10]), single_network\<lparr>states := [9 / 10]\<rparr>)"
  by (simp add: simulate_def simulate_static_def calculate_states_def calculate_states_in_def
        probe_integrator_def single_network_def arange_def getitem_def setitem_def upt_rec Let_def)

subsection \<open>Allocation of the synchronous ensembles\<close>

lemma near_iff: "near sts tol i m \<longleftrightarrow> sts ! i < sts ! m + tol \<and> sts ! i > sts ! m - tol"
  by (auto simp add: near_def)

lemma scan_cluster_near:
  "i < length sts \<Longrightarrow> \<forall>m\<in>set c. m < length sts \<Longrightarrow>
   scan_cluster sts tol i c = Inr (list_ex (near sts tol i) c)"
  by (induction c) (auto simp add: getitem_def near_iff)

lemma scan_clusters_place:
  "i < length sts \<Longrightarrow> \<forall>m\<in>set (concat cs). m < length sts \<Longrightarrow>
   \<exists>cs1 found. scan_clusters sts tol i cs = Inr (cs1, found)
      \<and> (if found then cs1 else cs1 @ [[i]]) = first_fit_place sts tol i cs"
proof (induction cs)
  case Nil
  show ?case by (intro exI[of _ "[]"] exI[of _ False]) simp
next
  case (Cons c cs)
  have sc: "scan_cluster sts tol i c = Inr (list_ex (near sts tol i) c)"
    using Cons.prems by (intro scan_cluster_near) simp_all
  show ?case
  proof (cases "list_ex (near sts tol i) c")
    case True
    with sc show ?thesis by auto
  next
    case False
    from Cons.IH Cons.prems obtain cs1 found where
      "scan_clusters sts tol i cs = Inr (cs1, found)"
      "(if found then cs1 else cs1 @ [[i]]) = first_fit_place sts tol i cs"
      by auto
    with sc False show ?thesis by (cases found) auto
  qed
qed

lemma first_fit_place_mset:
  "mset (concat (first_fit_place sts tol i cs)) = add_mset i (mset (concat cs))"
  by (induction cs) simp_all

lemma first_fit_place_nonempty:
  "[] \<notin> set cs \<Longrightarrow> [] \<notin> set (first_fit_place sts tol i cs)"
  by (induction cs) auto

lemma allocate_loop_first_fit:
  "\<forall>i\<in>set js. i < length sts \<Longrightarrow> \<forall>m\<in>set (concat cs). m < length sts \<Longrightarrow>
   allocate_loop sts tol js cs = Inr (foldl (\<lambda>groups i. first_fit_place sts tol i groups) cs js)"
proof (induction js arbitrary: cs)
  case Nil
  show ?case by simp
next
  case (Cons i js)
  from Cons.prems have i: "i < length sts" by simp
  from scan_clusters_place[OF i Cons.prems(2), of tol] obtain cs1 found where
    sc: "scan_clusters sts tol i cs = Inr (cs1, found)"
    and pl: "(if found then cs1 else cs1 @ [[i]]) = first_fit_place sts tol i cs"
    by auto
  have "set (concat (first_fit_place sts tol i cs)) = insert i (set (concat cs))"
    using first_fit_place_mset[of sts tol i cs] by (metis set_mset_add_mset_insert set_mset_mset)
  with Cons.prems i have inv: "\<forall>m\<in>set (concat (first_fit_place sts tol i cs)). m < length sts"
    by simp
  have js: "\<forall>i\<in>set js. i < length sts" using Cons.prems(1) by simp
  show ?case
    using sc pl Cons.IH[OF js inv] by simp
qed

lemma allocate_first_fit:
  assumes "num_osc net \<le> length (states net)"
  shows "allocate_sync_ensembles net tol = Inr (first_fit (states net) tol (num_osc net))"
proof (cases "num_osc net \<le> 1")
  case True
  then show ?thesis by (simp add: allocate_sync_ensembles_def first_fit_def)
next
  case False
  with assms have "\<forall>i\<in>set [1..<num_osc net]. i < length (states net)"
    and "\<forall>m\<in>set (concat [[0]]). m < length (states net)" by auto
  then show ?thesis
    unfolding allocate_sync_ensembles_def first_fit_def by (rule allocate_loop_first_fit)
qed

lemma foldl_place_mset:
  "mset (concat (foldl (\<lambda>groups i. first_fit_place sts tol i groups) cs js)) = mset js + mset (concat cs)"
  by (induction js arbitrary: cs) (simp_all add: first_fit_place_mset)

lemma foldl_place_nonempty:
  "[] \<notin> set cs \<Longrightarrow> [] \<notin> set (foldl (\<lambda>groups i. first_fit_place sts tol i groups) cs js)"
  by (induction js arbitrary: cs) (simp_all add: first_fit_place_nonempty)

lemma first_fit_partition:
  assumes "0 < n"
  shows "mset (concat (first_fit sts tol n)) = mset [0..<n]" "[] \<notin> set (first_fit sts tol n)"
proof -
  have "[0..<n] = 0 # [1..<n]" using assms by (simp add: upt_conv_Cons)
  then show "mset (concat (first_fit sts tol n)) = mset [0..<n]"
    by (simp add: first_fit_def foldl_place_mset)
  show "[] \<notin> set (first_fit sts tol n)"
    unfolding first_fit_def by (rule foldl_place_nonempty) simp
qed






text \<open>
  Claim C5. For every network with a positive oscillator count \<open>n\<close> and \<open>n\<close> states,
  and every tolerance, \<open>allocate_sync_ensembles\<close> returns groups that partition
  \<open>{0, ..., n - 1}\<close>: no index occurs twice in the groups taken together, every index
  below \<open>n\<close> occurs, and no group is empty.
\<close>

theorem allocate_partition:
  assumes "0 < num_osc net" "length (states net) = num_osc net"
  shows "\<exists>clusters. allocate_sync_ensembles net tolerance = Inr clusters
       \<and> distinct (concat clusters) \<and> set (concat clusters) = {0..<num_osc net}
       \<and> [] \<notin> set clusters"
proof -
  let ?cs = "first_fit (states net) tolerance (num_osc net)"
  have a: "allocate_sync_ensembles net tolerance = Inr ?cs"
    using assms(2) by (intro allocate_first_fit) simp
  have m: "mset (concat ?cs) = mset [0..<num_osc net]" and ne: "[] \<notin> set ?cs"
    using first_fit_partition[OF assms(1)] by simp_all
  have "distinct (concat ?cs)"
    using m by (metis distinct_upt mset_eq_imp_distinct_iff)
  moreover have "set (concat ?cs) = {0..<num_osc net}"
    using mset_eq_setD[OF m] by simp
  ultimately show ?thesis using a ne by simp
qed

theorem allocate_partition_witness:
  "0 < num_osc (five_oscillators [1, 105 / 100, 102 / 100, 5, 501 / 100])
   \<and> length (states (five_oscillators [1, 105 / 100, 102 / 100, 5, 501 / 100]))
       = num_osc (five_oscillators [1, 105 / 100, 102 / 100, 5, 501 / 100])
   \<and> (\<exists>clusters. allocate_sync_ensembles (five_oscillators [1, 105 / 100, 102 / 100, 5, 501 / 100]) (1 / 10)
         = Inr clusters
       \<and> distinct (concat clusters) \<and> set (concat clusters) = {0..<5} \<and> [] \<notin> set clusters)"
proof -
  have h: "0 < num_osc (five_oscillators [1, 105 / 100, 102 / 100, 5, 501 / 100])"
    "length (states (five_oscillators [1, 105 / 100, 102 / 100, 5, 501 / 100]))
       = num_osc (five_oscillators [1, 105 / 100, 102 / 100, 5, 501 / 100])"
    by (simp_all add: five_oscillators_def)
  have n: "num_osc (five_oscillators [1, 105 / 100, 102 / 100, 5, 501 / 100]) = 5"
    by (simp add: five_oscillators_def)
  show ?thesis
    using h allocate_partition[OF h, of "1 / 10"] unfolding n by simp
qed

end
